theory Spec2Isabelle
  imports Main "HOL-Library.Word" "HOL-Library.Sublist" "HOL-Library.Multiset"
begin

section \<open>Huffman coding (src/search/greedy/huffman.cc)\<close>

subsection \<open>Data model\<close>

text \<open>
  The source builds its trees from heap nodes
  \<^verbatim>\<open>struct Node { int w; char c; Node *left, *right; }\<close>
  and keeps the forest as a \<^verbatim>\<open>vector<Node*>\<close>. No field of a node is written after the
  function that allocated it (\<^verbatim>\<open>leaf\<close>, \<^verbatim>\<open>merge\<close>) has returned, so a non-null
  \<^verbatim>\<open>Node*\<close> is modelled by the node it points to, together with its own address: the
  address is needed because \<^verbatim>\<open>huffman\<close> and \<^verbatim>\<open>swap\<close> apply \<^verbatim>\<open><\<close> and
  \<^verbatim>\<open>min\<close> to elements of the vector, which are pointers. A nullable child pointer is
  an \<open>option\<close>. The elements of a forest, and the roots given to
  \<^verbatim>\<open>codetable\<close> and \<^verbatim>\<open>decode\<close>, are non-null. The weight is a 32-bit
  \<^verbatim>\<open>int\<close>, kept by its bits: addition wraps, as two's complement hardware does
  (C++ leaves the overflow of a signed addition undefined).
\<close>

type_synonym addr = nat

datatype Node = Node (addr: addr) (w: "32 word") (c: char)
  (left: "Node option") (right: "Node option")

text \<open>
  The source has no exceptions and no error codes. The places where its behaviour is
  undefined are kept as values: \<^verbatim>\<open>front()\<close> of an empty vector, a member access
  through a null pointer, and a read behind the end of a character buffer.
\<close>

datatype fault = FrontOfEmptyVector | NullDereference | ReadPastEnd

text \<open>
  \<^verbatim>\<open>new Node()\<close> returns an address chosen by the allocator. The allocator is a
  parameter: \<open>new k\<close> is the address returned by the \<open>k\<close>-th allocation of a node, and
  the functions that allocate take the number of allocations made so far.
\<close>

type_synonym allocator = "nat \<Rightarrow> addr"

text \<open>
  A \<^verbatim>\<open>const char*\<close> is modelled by the characters of the buffer it points into,
  terminator included; reading at the end of the list is a read behind the buffer.
  \<open>c_str s\<close> is the buffer that holds exactly the string \<open>s\<close> and its terminator.
\<close>

definition c_str :: "string \<Rightarrow> char list" where
  "c_str s = s @ [CHR 0x00]"

text \<open>
  \<^verbatim>\<open>std::map<char, V>\<close> is a list of entries in increasing key order, the order of its
  iterators. Keys are compared as \<^verbatim>\<open>char\<close> values; \<^verbatim>\<open>char\<close> is taken as signed
  (as on x86). \<open>map_get d m k\<close> is the value that \<^verbatim>\<open>m[k]\<close> reads, which is the
  default-constructed \<open>d\<close> when the key is absent; \<open>map_set k v m\<close> is the map after
  \<^verbatim>\<open>m[k] = v\<close>.
\<close>

definition char_int :: "char \<Rightarrow> int" where
  "char_int ch = (let n = of_char ch in if n < 128 then n else n - 256)"

definition map_get :: "'v \<Rightarrow> (char \<times> 'v) list \<Rightarrow> char \<Rightarrow> 'v" where
  "map_get d m k = (case map_of m k of None \<Rightarrow> d | Some v \<Rightarrow> v)"

fun map_set :: "char \<Rightarrow> 'v \<Rightarrow> (char \<times> 'v) list \<Rightarrow> (char \<times> 'v) list" where
  "map_set k v [] = [(k, v)]"
| "map_set k v ((k', v') # m) =
     (if k = k' then (k, v) # m
      else if char_int k < char_int k' then (k, v) # (k', v') # m
      else (k', v') # map_set k v m)"

type_synonym Nodes = "Node list"
type_synonym CodeTab = "(char \<times> string) list"

subsection \<open>Nodes\<close>

definition isleaf :: "Node \<Rightarrow> bool" where
  "isleaf a = (left a = None \<and> right a = None)"

definition leaf :: "addr \<Rightarrow> char \<Rightarrow> 32 word \<Rightarrow> Node" where
  "leaf p ch n = Node p n ch None None"

text \<open>\<^verbatim>\<open>new Node()\<close> zero-initialises, so the symbol of a merged node is the NUL character.\<close>

definition merge :: "addr \<Rightarrow> Node \<Rightarrow> Node \<Rightarrow> Node" where
  "merge p a b = Node p (w a + w b) (CHR 0x00) (Some a) (Some b)"

subsection \<open>Tree construction\<close>

text \<open>
  \<^verbatim>\<open>std::min(a, b)\<close> is \<^verbatim>\<open>(b < a) ? b : a\<close>. Its arguments here are of type
  \<^verbatim>\<open>Node*\<close>, so \<^verbatim>\<open><\<close> compares addresses; \<^verbatim>\<open>Node::operator<\<close>, which compares
  weights, takes \<^verbatim>\<open>Node\<close> operands and is called nowhere.
\<close>

definition min_ptr :: "Node \<Rightarrow> Node \<Rightarrow> Node" where
  "min_ptr a b = (if addr b < addr a then b else a)"

text \<open>\<^verbatim>\<open>swap(ts[i], ts[ts[j] < ts[k] ? k : j])\<close>\<close>

definition swap :: "Nodes \<Rightarrow> nat \<Rightarrow> nat \<Rightarrow> nat \<Rightarrow> Nodes" where
  "swap ts i j k =
     (let m = (if addr (ts ! j) < addr (ts ! k) then k else j)
      in ts[i := ts ! m, m := ts ! i])"

text \<open>
  The \<^verbatim>\<open>for\<close> loop of \<^verbatim>\<open>huffman\<close>: \<open>scan (Suc i) ts\<close> runs the body for
  \<open>i, i - 1, \<dots>, 0\<close>. Both arguments of \<^verbatim>\<open>min\<close> are \<^verbatim>\<open>ts[n-1]\<close> in the source.
\<close>

fun scan :: "nat \<Rightarrow> Nodes \<Rightarrow> Nodes" where
  "scan 0 ts = ts"
| "scan (Suc i) ts =
     (let n = length ts
      in scan i (if addr (ts ! i) < addr (min_ptr (ts ! (n - 1)) (ts ! (n - 1)))
                 then swap ts i (n - 1) (n - 2) else ts))"

text \<open>
  One round of the \<^verbatim>\<open>while\<close> loop on a forest of \<open>n > 1\<close> trees: the scan from
  \<open>i = n - 3\<close>, then \<^verbatim>\<open>ts[n-2] = merge(ts[n-1], ts[n-2]); ts.pop_back()\<close>, the new
  node being allocated at \<open>p\<close>.
\<close>

definition step :: "addr \<Rightarrow> Nodes \<Rightarrow> Nodes" where
  "step p ts =
     (let n = length ts;
          ts' = scan (n - 2) ts
      in butlast (ts'[n - 2 := merge p (ts' ! (n - 1)) (ts' ! (n - 2))]))"

lemma length_swap: "length (swap ts i j k) = length ts"
  by (simp add: swap_def Let_def)

lemma length_scan: "length (scan i ts) = length ts"
  by (induction i arbitrary: ts) (simp_all add: Let_def length_swap)

lemma length_step: "length (step p ts) = length ts - 1"
  by (simp add: step_def Let_def length_scan)

function huffman :: "allocator \<Rightarrow> nat \<Rightarrow> Nodes \<Rightarrow> fault + Node" where
  "huffman new k ts =
     (if length ts > 1 then huffman new (Suc k) (step (new k) ts)
      else (case ts of [] \<Rightarrow> Inl FrontOfEmptyVector | t # _ \<Rightarrow> Inr t))"
  by pat_completeness auto
termination
  by (relation "measure (\<lambda>(new, k, ts). length ts)") (auto simp: length_step)

declare huffman.simps [simp del]

subsection \<open>Code table\<close>

function codetab :: "Node \<Rightarrow> string \<Rightarrow> CodeTab \<Rightarrow> fault + CodeTab" where
  "codetab t bits codes =
     (if isleaf t then Inr (map_set (c t) bits codes)
      else (case left t of
              None \<Rightarrow> Inl NullDereference
            | Some l \<Rightarrow>
                (case codetab l (bits @ ''0'') codes of
                   Inl e \<Rightarrow> Inl e
                 | Inr codes' \<Rightarrow>
                     (case right t of
                        None \<Rightarrow> Inl NullDereference
                      | Some r \<Rightarrow> codetab r (bits @ ''1'') codes'))))"
  by pat_completeness auto
termination
proof (relation "measure (\<lambda>(t, bits, codes). size t)")
  show "wf (measure (\<lambda>(t, bits, codes). size t))"
    by simp
next
  fix t :: Node and bits :: string and codes :: CodeTab and l
  assume "left t = Some l"
  then show "((l, bits @ ''0'', codes), (t, bits, codes)) \<in> measure (\<lambda>(t, bits, codes). size t)"
    by (cases t) simp
next
  fix t :: Node and bits :: string and codes codes' :: CodeTab and r
  assume "right t = Some r"
  then show "((r, bits @ ''1'', codes'), (t, bits, codes)) \<in> measure (\<lambda>(t, bits, codes). size t)"
    by (cases t) simp
qed

declare codetab.simps [simp del]

definition codetable :: "Node \<Rightarrow> fault + CodeTab" where
  "codetable t = codetab t [] []"

subsection \<open>Encoding and decoding\<close>

text \<open>
  \<^verbatim>\<open>while (*w) bits += codes[*w++]\<close>. The table is a by-value copy; the subscript
  inserts an empty string for a key that is absent.
\<close>

fun encode_loop :: "CodeTab \<Rightarrow> char list \<Rightarrow> string \<Rightarrow> fault + string" where
  "encode_loop codes [] bits = Inl ReadPastEnd"
| "encode_loop codes (ch # str) bits =
     (if ch = CHR 0x00 then Inr bits
      else (let s = map_get [] codes ch
            in encode_loop (map_set ch s codes) str (bits @ s)))"

definition encode :: "CodeTab \<Rightarrow> char list \<Rightarrow> fault + string" where
  "encode codes str = encode_loop codes str []"

text \<open>
  The inner loop of \<^verbatim>\<open>decode\<close>:
  \<^verbatim>\<open>while (!isleaf(t)) t = '0' == *bits++ ? t->left : t->right;\<close>
  It returns the leaf reached and the rest of the buffer. It does not look for the
  terminator. When the pointer it follows is null, the next \<^verbatim>\<open>isleaf\<close> dereferences it.
\<close>

function walk :: "Node \<Rightarrow> char list \<Rightarrow> fault + (Node \<times> char list)" where
  "walk t bits =
     (if isleaf t then Inr (t, bits)
      else (case bits of
              [] \<Rightarrow> Inl ReadPastEnd
            | b # bits' \<Rightarrow>
                (case (if CHR ''0'' = b then left t else right t) of
                   None \<Rightarrow> Inl NullDereference
                 | Some t' \<Rightarrow> walk t' bits')))"
  by pat_completeness auto
termination
  by (relation "measure (\<lambda>(t, bits). length bits)") auto

declare walk.simps [simp del]

text \<open>
  The outer loop of \<^verbatim>\<open>decode\<close>. It need not return (a root that is a leaf consumes
  nothing), so the result is an \<open>option\<close>: \<open>None\<close> when the loop runs forever.
\<close>

partial_function (option) decode_loop ::
  "Node \<Rightarrow> char list \<Rightarrow> string \<Rightarrow> (fault + string) option" where
  "decode_loop root bits out =
     (case bits of
        [] \<Rightarrow> Some (Inl ReadPastEnd)
      | b # _ \<Rightarrow>
          if b = CHR 0x00 then Some (Inr out)
          else (case walk root bits of
                  Inl e \<Rightarrow> Some (Inl e)
                | Inr (t, bits') \<Rightarrow> decode_loop root bits' (out @ [c t])))"

declare decode_loop.simps [code]

definition decode :: "Node \<Rightarrow> char list \<Rightarrow> (fault + string) option" where
  "decode root bits = decode_loop root bits []"

subsection \<open>Histogram and leaves\<close>

text \<open>\<^verbatim>\<open>while (*w) ++hist[*w++]\<close>\<close>

fun freq_loop :: "(char \<times> 32 word) list \<Rightarrow> char list \<Rightarrow> fault + (char \<times> 32 word) list" where
  "freq_loop hist [] = Inl ReadPastEnd"
| "freq_loop hist (ch # str) =
     (if ch = CHR 0x00 then Inr hist
      else freq_loop (map_set ch (map_get 0 hist ch + 1) hist) str)"

definition freq :: "char list \<Rightarrow> fault + (char \<times> 32 word) list" where
  "freq str = freq_loop [] str"

fun nodes :: "allocator \<Rightarrow> nat \<Rightarrow> (char \<times> 32 word) list \<Rightarrow> Nodes" where
  "nodes new k [] = []"
| "nodes new k ((ch, n) # hist) = leaf (new k) ch n # nodes new (Suc k) hist"

text \<open>An allocator that hands out increasing addresses, for evaluating examples.\<close>

definition bump :: allocator where
  "bump k = 4096 + 48 * k"

subsection \<open>The driver\<close>

text \<open>
  \<^verbatim>\<open>test()\<close> with its text as a parameter: the histogram, the leaves, the tree, the
  code table, the encoded string, and the decoding of that string's \<^verbatim>\<open>c_str()\<close>.
  The leaves take the first allocations of nodes, the merges the following ones. The value
  is the string that \<^verbatim>\<open>test\<close> prints after \<^verbatim>\<open>text:\<close>.
\<close>

definition test :: "allocator \<Rightarrow> char list \<Rightarrow> (fault + string) option" where
  "test new str =
     (case freq str of Inl e \<Rightarrow> Some (Inl e) | Inr hist \<Rightarrow>
     (case huffman new (length hist) (nodes new 0 hist) of Inl e \<Rightarrow> Some (Inl e) | Inr tr \<Rightarrow>
     (case codetable tr of Inl e \<Rightarrow> Some (Inl e) | Inr codes \<Rightarrow>
     (case encode codes str of Inl e \<Rightarrow> Some (Inl e) | Inr cs \<Rightarrow>
        decode tr (c_str cs)))))"

subsection \<open>Notions used in the statements\<close>

text \<open>
  The forests that the \<^verbatim>\<open>while\<close> loop of \<^verbatim>\<open>huffman\<close> goes through, from the
  argument to the forest that the loop ends with.
\<close>

function forests :: "allocator \<Rightarrow> nat \<Rightarrow> Nodes \<Rightarrow> Nodes list" where
  "forests new k ts =
     ts # (if length ts > 1 then forests new (Suc k) (step (new k) ts) else [])"
  by pat_completeness auto
termination
  by (relation "measure (\<lambda>(new, k, ts). length ts)") (auto simp: length_step)

declare forests.simps [simp del]

text \<open>
  A tree is \<open>full\<close> when each of its nodes has no child or two children. \<open>leaves t\<close>
  are the leaf nodes of \<open>t\<close> from left to right, and \<open>codes_of t\<close> gives, for each of
  them in this order, its symbol and the path that leads to it from \<open>t\<close>, a \<open>0\<close> for
  each step to a left child and a \<open>1\<close> for each step to a right child.
\<close>

function full :: "Node \<Rightarrow> bool" where
  "full t =
     (case (left t, right t) of
        (None, None) \<Rightarrow> True
      | (Some l, Some r) \<Rightarrow> full l \<and> full r
      | _ \<Rightarrow> False)"
  by pat_completeness auto
termination
proof (relation "measure size")
  show "wf (measure size)" by simp
next
  fix t :: Node and x y l r
  assume "(x, y) = (left t, right t)" "x = Some l"
  then show "(l, t) \<in> measure size" by (cases t) simp
next
  fix t :: Node and x y l r
  assume "(x, y) = (left t, right t)" "y = Some r"
  then show "(r, t) \<in> measure size" by (cases t) simp
qed

declare full.simps [simp del]

function leaves :: "Node \<Rightarrow> Node list" where
  "leaves t =
     (if isleaf t then [t]
      else (case left t of None \<Rightarrow> [] | Some l \<Rightarrow> leaves l) @
           (case right t of None \<Rightarrow> [] | Some r \<Rightarrow> leaves r))"
  by pat_completeness auto
termination
proof (relation "measure size")
  show "wf (measure size)" by simp
next
  fix t :: Node and l
  assume "left t = Some l"
  then show "(l, t) \<in> measure size" by (cases t) simp
next
  fix t :: Node and r
  assume "right t = Some r"
  then show "(r, t) \<in> measure size" by (cases t) simp
qed

declare leaves.simps [simp del]

function codes_of :: "Node \<Rightarrow> (char \<times> string) list" where
  "codes_of t =
     (if isleaf t then [(c t, [])]
      else (case left t of None \<Rightarrow> []
            | Some l \<Rightarrow> map (\<lambda>(ch, bs). (ch, CHR ''0'' # bs)) (codes_of l)) @
           (case right t of None \<Rightarrow> []
            | Some r \<Rightarrow> map (\<lambda>(ch, bs). (ch, CHR ''1'' # bs)) (codes_of r)))"
  by pat_completeness auto
termination
proof (relation "measure size")
  show "wf (measure size)" by simp
next
  fix t :: Node and l
  assume "left t = Some l"
  then show "(l, t) \<in> measure size" by (cases t) simp
next
  fix t :: Node and r
  assume "right t = Some r"
  then show "(r, t) \<in> measure size" by (cases t) simp
qed

declare codes_of.simps [simp del]

text \<open>The entries of a \<^verbatim>\<open>std::map\<close> are in strictly increasing key order.\<close>

definition keys_sorted :: "(char \<times> 'v) list \<Rightarrow> bool" where
  "keys_sorted m = sorted_wrt (\<lambda>a b. char_int a < char_int b) (map fst m)"

text \<open>
  How \<^verbatim>\<open>decode\<close> reads a character: it compares with \<open>0\<close> only, so every other
  character stands for \<open>1\<close>; the NUL character is kept, since the outer loop stops at it.
\<close>

definition read_bit :: "char \<Rightarrow> char" where
  "read_bit b = (if b = CHR ''0'' \<or> b = CHR 0x00 then b else CHR ''1'')"

section \<open>Lemmas\<close>

lemma mset_swap_nodes:
  "i < length ts \<Longrightarrow> j < length ts \<Longrightarrow> k < length ts \<Longrightarrow> mset (swap ts i j k) = mset ts"
  by (simp add: swap_def Let_def mset_swap)

lemma mset_scan: "2 \<le> length ts \<Longrightarrow> i \<le> length ts \<Longrightarrow> mset (scan i ts) = mset ts"
proof (induction i arbitrary: ts)
  case 0
  then show ?case by simp
next
  case (Suc i)
  let ?n = "length ts"
  let ?ts = "if addr (ts ! i) < addr (min_ptr (ts ! (?n - 1)) (ts ! (?n - 1)))
             then swap ts i (?n - 1) (?n - 2) else ts"
  have len: "length ?ts = ?n" by (simp add: length_swap)
  have ms: "mset ?ts = mset ts" using Suc.prems by (simp add: mset_swap_nodes)
  have "mset (scan i ?ts) = mset ?ts"
    using Suc.prems len by (intro Suc.IH) simp_all
  then show ?case using ms by (simp add: Let_def)
qed

lemma two_last: "2 \<le> length (xs :: 'a list) \<Longrightarrow> \<exists>ys a b. xs = ys @ [a, b]"
proof -
  assume l: "2 \<le> length xs"
  then obtain zs b where 1: "xs = zs @ [b]" by (cases xs rule: rev_cases) auto
  with l obtain ys a where "zs = ys @ [a]" by (cases zs rule: rev_cases) auto
  with 1 show ?thesis by simp
qed

lemma step_split:
  assumes "2 \<le> length ts"
  shows "\<exists>ys a b. mset ts = mset (ys @ [a, b]) \<and> step p ts = ys @ [merge p b a]"
proof -
  let ?ts = "scan (length ts - 2) ts"
  have len: "length ?ts = length ts" by (simp add: length_scan)
  have ms: "mset ?ts = mset ts" using assms by (simp add: mset_scan)
  from len assms obtain ys a b where sp: "?ts = ys @ [a, b]"
    using two_last [of ?ts] by auto
  have n: "length ts = Suc (Suc (length ys))"
    using len sp by simp
  have "step p ts = butlast (?ts[length ys := merge p (?ts ! Suc (length ys)) (?ts ! length ys)])"
    by (simp add: step_def Let_def n)
  also have "\<dots> = ys @ [merge p b a]"
    by (simp add: sp nth_append butlast_append)
  finally show ?thesis using ms sp by metis
qed

lemma huffman_rule:
  assumes "ts \<noteq> []" and "P ts"
    and "\<And>p ts. 2 \<le> length ts \<Longrightarrow> P ts \<Longrightarrow> P (step p ts)"
  shows "\<exists>t. huffman new k ts = Inr t \<and> P [t]"
  using assms(1,2)
proof (induction new k ts rule: huffman.induct)
  case (1 new k ts)
  show ?case
  proof (cases "1 < length ts")
    case True
    then have "step (new k) ts \<noteq> []"
      using length_step [of "new k" ts] by (metis One_nat_def list.size(3) zero_less_diff less_irrefl)
    moreover have "P (step (new k) ts)"
      using True "1.prems" assms(3) by simp
    ultimately have "\<exists>t. huffman new (Suc k) (step (new k) ts) = Inr t \<and> P [t]"
      using True "1.IH" by simp
    then show ?thesis using True by (subst huffman.simps) simp
  next
    case False
    with "1.prems" obtain t where "ts = [t]"
      by (cases ts) auto
    with "1.prems" show ?thesis by (simp add: huffman.simps)
  qed
qed

lemma isleaf_merge: "\<not> isleaf (merge p a b)"
  by (simp add: isleaf_def merge_def)

lemma leaves_merge: "leaves (merge p a b) = leaves a @ leaves b"
  by (subst leaves.simps) (simp add: isleaf_merge, simp add: merge_def)

lemma full_merge: "full (merge p a b) = (full a \<and> full b)"
  by (subst full.simps) (simp add: merge_def)

lemma full_leaf: "isleaf t \<Longrightarrow> full t"
  by (subst full.simps) (simp add: isleaf_def)

lemma step_full:
  assumes "2 \<le> length ts" "list_all full ts"
  shows "list_all full (step p ts)"
proof -
  obtain ys a b where 1: "mset ts = mset (ys @ [a, b])" and 2: "step p ts = ys @ [merge p b a]"
    using step_split [OF assms(1)] by blast
  from 1 have "set ts = set (ys @ [a, b])" by (rule mset_eq_setD)
  with assms(2) show ?thesis
    by (auto simp: 2 list_all_iff full_merge)
qed

lemma mset_concat_map: "mset (concat (map f xs)) = (\<Sum>x\<in>#mset xs. mset (f x))"
  by (induction xs) simp_all

lemma step_leaves:
  assumes "2 \<le> length ts"
  shows "mset (concat (map leaves (step p ts))) = mset (concat (map leaves ts))"
proof -
  obtain ys a b where 1: "mset ts = mset (ys @ [a, b])" and 2: "step p ts = ys @ [merge p b a]"
    using step_split [OF assms(1)] by blast
  have "mset (concat (map leaves ts)) = mset (concat (map leaves (ys @ [a, b])))"
    unfolding mset_concat_map 1 ..
  then show ?thesis by (simp add: 2 leaves_merge)
qed

lemma step_weight:
  assumes "2 \<le> length ts"
  shows "sum_list (map w (step p ts)) = sum_list (map w ts)"
proof -
  obtain ys a b where 1: "mset ts = mset (ys @ [a, b])" and 2: "step p ts = ys @ [merge p b a]"
    using step_split [OF assms(1)] by blast
  have "sum_list (map w ts) = sum_mset (image_mset w (mset ts))"
    by (metis mset_map sum_mset_sum_list)
  also have "\<dots> = sum_list (map w (ys @ [a, b]))"
    unfolding 1 by (metis mset_map sum_mset_sum_list)
  finally show ?thesis by (simp add: 2 merge_def add.commute)
qed

lemma full_cases:
  assumes "full t"
  obtains (Leaf) "isleaf t"
    | (Inner) l r where "left t = Some l" "right t = Some r" "full l" "full r" "\<not> isleaf t"
  using assms by (subst (asm) full.simps) (auto simp: isleaf_def split: option.splits)

lemma full_children:
  assumes "full t" "\<not> isleaf t"
  obtains l r where "left t = Some l" "right t = Some r" "full l" "full r"
  using assms by (auto elim: full_cases)

lemma codes_of_leaf: "isleaf t \<Longrightarrow> codes_of t = [(c t, [])]"
  by (subst codes_of.simps) simp

lemma codes_of_inner:
  "left t = Some l \<Longrightarrow> right t = Some r \<Longrightarrow>
   codes_of t = map (\<lambda>(ch, bs). (ch, CHR ''0'' # bs)) (codes_of l) @
                map (\<lambda>(ch, bs). (ch, CHR ''1'' # bs)) (codes_of r)"
  by (subst codes_of.simps) (simp add: isleaf_def)

lemma map_fst_codes_of: "full t \<Longrightarrow> map fst (codes_of t) = map c (leaves t)"
proof (induction t rule: full.induct)
  case (1 t)
  from "1.prems" show ?case
  proof (cases rule: full_cases)
    case Leaf
    then show ?thesis by (simp add: codes_of_leaf leaves.simps [of t])
  next
    case (Inner l r)
    have "map fst (codes_of l) = map c (leaves l)" "map fst (codes_of r) = map c (leaves r)"
      using Inner "1.IH" by simp_all
    then show ?thesis
      using Inner by (simp add: codes_of_inner leaves.simps [of t] case_prod_unfold comp_def)
  qed
qed

lemma codetab_full:
  "full t \<Longrightarrow>
   codetab t pre codes =
     Inr (fold (\<lambda>(ch, bs). map_set ch (pre @ bs)) (codes_of t) codes)"
proof (induction t arbitrary: pre codes rule: full.induct)
  case (1 t)
  from "1.prems" show ?case
  proof (cases rule: full_cases)
    case Leaf
    then show ?thesis by (subst codetab.simps) (simp add: codes_of_leaf)
  next
    case (Inner l r)
    have l: "codetab l (pre @ ''0'') codes =
        Inr (fold (\<lambda>(ch, bs). map_set ch ((pre @ ''0'') @ bs)) (codes_of l) codes)" for codes
      using Inner "1.IH" by simp
    have r: "codetab r (pre @ ''1'') codes =
        Inr (fold (\<lambda>(ch, bs). map_set ch ((pre @ ''1'') @ bs)) (codes_of r) codes)" for codes
      using Inner "1.IH" by simp
    show ?thesis
      by (subst codetab.simps)
        (simp add: Inner l r codes_of_inner fold_map comp_def case_prod_unfold)
  qed
qed

lemma map_of_map_set: "map_of (map_set k v m) = (map_of m)(k \<mapsto> v)"
  by (induction m) (auto simp: fun_eq_iff)

lemma set_map_set: "set (map_set k v m) \<subseteq> insert (k, v) (set m)"
  by (induction m) (auto split: if_splits)

lemma set_fold_map_set:
  "set (fold (\<lambda>(ch, bs). map_set ch (f bs)) kvs m) \<subseteq> set m \<union> (\<lambda>(ch, bs). (ch, f bs)) ` set kvs"
proof (induction kvs arbitrary: m)
  case Nil
  then show ?case by simp
next
  case (Cons kv kvs)
  obtain k v where kv: "kv = (k, v)" by (cases kv)
  have "set (fold (\<lambda>(ch, bs). map_set ch (f bs)) kvs (map_set k (f v) m))
      \<subseteq> set (map_set k (f v) m) \<union> (\<lambda>(ch, bs). (ch, f bs)) ` set kvs"
    by (rule Cons.IH)
  then show ?case using set_map_set [of k "f v" m] by (auto simp: kv)
qed

lemma map_of_fold_map_set:
  "distinct (map fst kvs) \<Longrightarrow> (k, v) \<in> set kvs \<Longrightarrow>
   map_of (fold (\<lambda>(ch, bs). map_set ch (f bs)) kvs m) k = Some (f v)"
proof (induction kvs arbitrary: m)
  case Nil
  then show ?case by simp
next
  case (Cons kv kvs)
  obtain k' v' where kv: "kv = (k', v')" by (cases kv)
  show ?case
  proof (cases "(k, v) \<in> set kvs")
    case True
    then show ?thesis using Cons by (simp add: kv)
  next
    case False
    with Cons.prems have eq: "k' = k" "v' = v" by (auto simp: kv)
    have notin: "k \<notin> fst ` set kvs" using Cons.prems by (auto simp: kv eq)
    have "map_of (fold (\<lambda>(ch, bs). map_set ch (f bs)) kvs m') k = map_of m' k" for m'
      using notin
    proof (induction kvs arbitrary: m')
      case Nil
      then show ?case by simp
    next
      case (Cons a kvs)
      then show ?case by (cases a) (auto simp: map_of_map_set)
    qed
    then show ?thesis by (simp add: kv eq map_of_map_set)
  qed
qed

lemma walk_leaf: "isleaf t \<Longrightarrow> walk t bits = Inr (t, bits)"
  by (subst walk.simps) simp

lemma walk_inner:
  "\<not> isleaf t \<Longrightarrow> walk t (b # bits) =
     (case (if CHR ''0'' = b then left t else right t) of
        None \<Rightarrow> Inl NullDereference | Some t' \<Rightarrow> walk t' bits)"
  by (subst walk.simps) simp

lemma walk_end: "\<not> isleaf t \<Longrightarrow> walk t [] = Inl ReadPastEnd"
  by (subst walk.simps) simp

lemma codes_of_cases:
  assumes "(ch, bs) \<in> set (codes_of t)"
  obtains (Leaf) "isleaf t" "ch = c t" "bs = []"
  | (Left) l bs' where "\<not> isleaf t" "left t = Some l" "(ch, bs') \<in> set (codes_of l)" "bs = CHR ''0'' # bs'"
  | (Right) r bs' where "\<not> isleaf t" "right t = Some r" "(ch, bs') \<in> set (codes_of r)" "bs = CHR ''1'' # bs'"
proof -
  from assms have "(ch, bs) \<in> set (if isleaf t then [(c t, [])]
      else (case left t of None \<Rightarrow> []
            | Some l \<Rightarrow> map (\<lambda>(ch, bs). (ch, CHR ''0'' # bs)) (codes_of l)) @
           (case right t of None \<Rightarrow> []
            | Some r \<Rightarrow> map (\<lambda>(ch, bs). (ch, CHR ''1'' # bs)) (codes_of r)))"
    by (subst codes_of.simps [symmetric])
  then show thesis
    using that by (auto split: option.splits if_splits)
qed

lemma codes_of_bits:
  "(ch, bs) \<in> set (codes_of t) \<Longrightarrow> set bs \<subseteq> {CHR ''0'', CHR ''1''}"
proof (induction t arbitrary: bs rule: codes_of.induct)
  case (1 t)
  from "1.prems" show ?case
  proof (cases rule: codes_of_cases)
    case Leaf
    then show ?thesis by simp
  next
    case (Left l bs')
    then show ?thesis using "1.IH"(1) [OF Left(1,2,3)] by auto
  next
    case (Right r bs')
    then show ?thesis using "1.IH"(2) [OF Right(1,2,3)] by auto
  qed
qed

lemma codes_of_nonempty:
  "\<not> isleaf t \<Longrightarrow> (ch, bs) \<in> set (codes_of t) \<Longrightarrow> bs \<noteq> []"
  by (erule codes_of_cases) auto

lemma walk_code:
  "(ch, bs) \<in> set (codes_of t) \<Longrightarrow> \<exists>lf. walk t (bs @ rest) = Inr (lf, rest) \<and> c lf = ch"
proof (induction t arbitrary: bs rule: codes_of.induct)
  case (1 t)
  from "1.prems" show ?case
  proof (cases rule: codes_of_cases)
    case Leaf
    then show ?thesis by (simp add: walk_leaf)
  next
    case (Left l bs')
    then show ?thesis using "1.IH"(1) [OF Left(1,2,3)] by (simp add: walk_inner)
  next
    case (Right r bs')
    then show ?thesis using "1.IH"(2) [OF Right(1,2,3)] by (simp add: walk_inner)
  qed
qed

lemma codes_of_prefix:
  "(k1, p) \<in> set (codes_of t) \<Longrightarrow> (k2, p @ q) \<in> set (codes_of t) \<Longrightarrow> k1 = k2 \<and> q = []"
proof (induction t arbitrary: p rule: codes_of.induct)
  case (1 t)
  from "1.prems"(1) show ?case
  proof (cases rule: codes_of_cases)
    case Leaf
    then show ?thesis using "1.prems"(2) by (simp add: codes_of_leaf)
  next
    case (Left l bs')
    from "1.prems"(2) have "(k2, bs' @ q) \<in> set (codes_of l)"
      by (cases rule: codes_of_cases) (use Left in auto)
    then show ?thesis using "1.IH"(1) [OF Left(1,2,3)] by simp
  next
    case (Right r bs')
    from "1.prems"(2) have "(k2, bs' @ q) \<in> set (codes_of r)"
      by (cases rule: codes_of_cases) (use Right in auto)
    then show ?thesis using "1.IH"(2) [OF Right(1,2,3)] by simp
  qed
qed

lemma decode_loop_nul: "decode_loop root (CHR 0x00 # bs) out = Some (Inr out)"
  by (subst decode_loop.simps) simp

lemma decode_loop_nil: "decode_loop root [] out = Some (Inl ReadPastEnd)"
  by (subst decode_loop.simps) simp

lemma decode_loop_code:
  assumes "\<not> isleaf root" "(ch, bs) \<in> set (codes_of root)"
  shows "decode_loop root (bs @ rest) out = decode_loop root rest (out @ [ch])"
proof -
  obtain b bs' where bs: "bs = b # bs'"
    using codes_of_nonempty [OF assms] by (cases bs) auto
  have b: "b \<noteq> CHR 0x00"
    using codes_of_bits [OF assms(2)] by (auto simp: bs)
  obtain lf where lf: "walk root (b # bs' @ rest) = Inr (lf, rest)" "c lf = ch"
    using walk_code [OF assms(2), of rest] by (auto simp: bs)
  show ?thesis
    unfolding bs by (subst decode_loop.simps) (simp add: b lf)
qed

lemma decode_loop_codes:
  assumes "\<not> isleaf root" "set kvs \<subseteq> set (codes_of root)"
  shows "decode_loop root (concat (map snd kvs) @ rest) out = decode_loop root rest (out @ map fst kvs)"
  using assms(2)
proof (induction kvs arbitrary: out)
  case Nil
  then show ?case by simp
next
  case (Cons kv kvs)
  obtain ch bs where kv: "kv = (ch, bs)" by (cases kv)
  with Cons.prems have mem: "(ch, bs) \<in> set (codes_of root)" by simp
  have "decode_loop root (concat (map snd (kv # kvs)) @ rest) out
     = decode_loop root (concat (map snd kvs) @ rest) (out @ [ch])"
    using decode_loop_code [OF assms(1) mem] by (simp add: kv)
  then show ?case using Cons by (simp add: kv)
qed

lemma decode_loop_Some_leaf:
  assumes "decode_loop root bits out = Some r"
  shows "isleaf root \<longrightarrow> bits = [] \<or> hd bits = CHR 0x00"
  using assms
proof (rule decode_loop.raw_induct [rotated])
  fix f :: "Node \<Rightarrow> char list \<Rightarrow> string \<Rightarrow> (fault + string) option"
    and root bits out r
  assume IH: "\<And>root bits out r. f root bits out = Some r \<Longrightarrow>
    isleaf root \<longrightarrow> bits = [] \<or> hd bits = CHR 0x00"
  assume eq: "(case bits of
        [] \<Rightarrow> Some (Inl ReadPastEnd)
      | b # _ \<Rightarrow>
          if b = CHR 0x00 then Some (Inr out)
          else (case walk root bits of
                  Inl e \<Rightarrow> Some (Inl e)
                | Inr (t, bits') \<Rightarrow> f root bits' (out @ [c t]))) = Some r"
  show "isleaf root \<longrightarrow> bits = [] \<or> hd bits = CHR 0x00"
  proof
    assume lf: "isleaf root"
    show "bits = [] \<or> hd bits = CHR 0x00"
    proof (cases bits)
      case Nil
      then show ?thesis by simp
    next
      case (Cons b bs)
      show ?thesis
      proof (cases "b = CHR 0x00")
        case True
        then show ?thesis by (simp add: Cons)
      next
        case False
        with eq lf have "f root bits (out @ [c root]) = Some r"
          by (simp add: Cons walk_leaf)
        then show ?thesis using IH lf by blast
      qed
    qed
  qed
qed

lemma decode_loop_leaf:
  assumes "isleaf root" "b \<noteq> CHR 0x00"
  shows "decode_loop root (b # bits) out = None"
  using decode_loop_Some_leaf [of root "b # bits" out] assms
  by (cases "decode_loop root (b # bits) out") auto

lemma map_get_map_set: "map_get d (map_set k (map_get d m k) m) = map_get d m"
  by (rule ext) (simp add: map_get_def map_of_map_set split: option.splits)

lemma encode_loop_cstr:
  "CHR 0x00 \<notin> set S \<Longrightarrow>
   encode_loop codes (S @ CHR 0x00 # rest) acc = Inr (acc @ concat (map (map_get [] codes) S))"
proof (induction S arbitrary: codes acc)
  case Nil
  then show ?case by simp
next
  case (Cons a S)
  then show ?case by (auto simp: Let_def map_get_map_set)
qed

lemma char_int_inj: "char_int a = char_int b \<Longrightarrow> a = b"
proof -
  have r: "0 \<le> (of_char x :: int) \<and> (of_char x :: int) < 256" for x
  proof -
    have "(of_char x :: int) = int (of_char x)"
      by (simp add: of_nat_of_char)
    then show ?thesis
      using nat_of_char_less_256 [of x] by linarith
  qed
  assume "char_int a = char_int b"
  then have "(of_char a :: int) = of_char b"
    using r [of a] r [of b] by (auto simp: char_int_def Let_def split: if_splits)
  then show ?thesis by simp
qed

lemma keys_map_set: "fst ` set (map_set k v m) = insert k (fst ` set m)"
proof -
  have "fst ` set (map_set k v m) = dom (map_of (map_set k v m))"
    by (simp add: dom_map_of_conv_image_fst)
  also have "\<dots> = insert k (fst ` set m)"
    by (simp add: map_of_map_set dom_map_of_conv_image_fst)
  finally show ?thesis .
qed

lemma keys_sorted_map_set: "keys_sorted m \<Longrightarrow> keys_sorted (map_set k v m)"
proof (induction m)
  case Nil
  then show ?case by (simp add: keys_sorted_def)
next
  case (Cons a m)
  obtain k' v' where a: "a = (k', v')" by (cases a)
  from Cons.prems have m: "keys_sorted m" and lt: "\<forall>x\<in>set (map fst m). char_int k' < char_int x"
    by (simp_all add: keys_sorted_def a)
  show ?case
  proof (cases "k = k'")
    case True
    then show ?thesis using Cons.prems by (simp add: a keys_sorted_def)
  next
    case False
    show ?thesis
    proof (cases "char_int k < char_int k'")
      case True
      then show ?thesis using Cons.prems False by (auto simp: a keys_sorted_def)
    next
      case ge: False
      with False have "char_int k' < char_int k"
        using char_int_inj [of k k'] by force
      moreover have "keys_sorted (map_set k v m)" using m by (rule Cons.IH)
      ultimately show ?thesis
        using False ge lt keys_map_set [of k v m] by (auto simp: a keys_sorted_def)
    qed
  qed
qed

lemma keys_sorted_distinct: "keys_sorted m \<Longrightarrow> distinct (map fst m)"
  unfolding keys_sorted_def by (induction m) auto

lemma freq_loop_cstr:
  "CHR 0x00 \<notin> set S \<Longrightarrow> keys_sorted hist \<Longrightarrow>
   \<exists>h. freq_loop hist (S @ CHR 0x00 # rest) = Inr h \<and> keys_sorted h \<and>
       fst ` set h = fst ` set hist \<union> set S"
proof (induction S arbitrary: hist)
  case Nil
  then show ?case by simp
next
  case (Cons a S)
  let ?h = "map_set a (map_get 0 hist a + 1) hist"
  have "keys_sorted ?h" using Cons.prems(2) by (rule keys_sorted_map_set)
  with Cons.IH [of ?h] Cons.prems(1)
  obtain h where "freq_loop ?h (S @ CHR 0x00 # rest) = Inr h" "keys_sorted h"
      "fst ` set h = fst ` set ?h \<union> set S"
    by auto
  then show ?case using Cons.prems(1) by (auto simp: keys_map_set)
qed

lemma nodes_props:
  "map c (nodes new k hist) = map fst hist \<and> list_all isleaf (nodes new k hist) \<and>
   length (nodes new k hist) = length hist"
  by (induction new k hist rule: nodes.induct) (simp_all add: leaf_def isleaf_def)

lemma leaves_leaf: "isleaf t \<Longrightarrow> leaves t = [t]"
  by (subst leaves.simps) simp

lemma concat_leaves: "list_all isleaf ts \<Longrightarrow> concat (map leaves ts) = ts"
  by (induction ts) (simp_all add: leaves_leaf)

lemma huffman_result:
  assumes "ts \<noteq> []" "list_all full ts"
  shows "\<exists>t. huffman new k ts = Inr t \<and> full t \<and>
     mset (leaves t) = mset (concat (map leaves ts)) \<and> w t = sum_list (map w ts)"
proof -
  let ?P = "\<lambda>xs. list_all full xs \<and> mset (concat (map leaves xs)) = mset (concat (map leaves ts))
      \<and> sum_list (map w xs) = sum_list (map w ts)"
  have "\<exists>t. huffman new k ts = Inr t \<and> ?P [t]"
    using assms by (intro huffman_rule) (simp_all add: step_full step_leaves step_weight)
  then show ?thesis by simp
qed

lemma leaves_nonempty: "full t \<Longrightarrow> leaves t \<noteq> []"
proof (induction t rule: full.induct)
  case (1 t)
  from "1.prems" show ?case
  proof (cases rule: full_cases)
    case Leaf
    then show ?thesis by (simp add: leaves_leaf)
  next
    case (Inner l r)
    then have "leaves l \<noteq> []" using "1.IH" by simp
    then show ?thesis using Inner by (subst leaves.simps) simp
  qed
qed

lemma huffman_leaf_forest:
  assumes "ts \<noteq> []" "list_all isleaf ts"
  shows "\<exists>t. huffman new k ts = Inr t \<and> full t \<and> mset (leaves t) = mset ts \<and>
     (2 \<le> length ts \<longrightarrow> \<not> isleaf t)"
proof -
  have f: "list_all full ts"
    using assms(2) by (simp add: list_all_iff full_leaf)
  from huffman_result [OF assms(1) f, of new k]
  obtain t where t: "huffman new k ts = Inr t" "full t" "mset (leaves t) = mset ts"
    by (auto simp: concat_leaves [OF assms(2)])
  have "length (leaves t) = length ts"
    using t(3) by (rule mset_eq_length)
  then have "2 \<le> length ts \<Longrightarrow> \<not> isleaf t"
    by (auto simp: leaves_leaf)
  with t show ?thesis by blast
qed

lemma walk_shorter:
  "walk t bits = Inr (t', bits') \<Longrightarrow> \<not> isleaf t \<Longrightarrow> length bits' < length bits"
proof (induction t bits rule: walk.induct)
  case (1 t bits)
  from "1.prems" obtain b bs u where bits: "bits = b # bs"
    and u: "(if CHR ''0'' = b then left t else right t) = Some u"
    and w: "walk u bs = Inr (t', bits')"
    by (subst (asm) walk.simps) (auto split: list.splits option.splits)
  show ?case
  proof (cases "isleaf u")
    case True
    with w show ?thesis by (simp add: walk_leaf bits)
  next
    case False
    then have "length bits' < length bs"
      using "1.IH" [OF "1.prems"(2) bits u w] by simp
    then show ?thesis by (simp add: bits)
  qed
qed

lemma decode_loop_returns:
  assumes "\<not> isleaf root"
  shows "\<exists>r. decode_loop root bits out = Some r"
proof (induction bits arbitrary: out rule: length_induct)
  case (1 bits)
  show ?case
  proof (cases bits)
    case Nil
    then show ?thesis by (subst decode_loop.simps) simp
  next
    case (Cons b bs)
    show ?thesis
    proof (cases "b = CHR 0x00")
      case True
      then show ?thesis by (subst decode_loop.simps) (simp add: Cons)
    next
      case False
      show ?thesis
      proof (cases "walk root bits")
        case (Inl e)
        then show ?thesis using False by (subst decode_loop.simps) (simp add: Cons)
      next
        case (Inr x)
        obtain t bits' where x: "x = (t, bits')" by (cases x)
        have "length bits' < length bits"
          using walk_shorter [OF _ assms] Inr x by simp
        then obtain r where "decode_loop root bits' (out @ [c t]) = Some r"
          using 1 by blast
        then show ?thesis
          using False Inr x Cons by (subst decode_loop.simps) simp
      qed
    qed
  qed
qed

lemma decode_loop_rounds:
  assumes "\<not> isleaf root"
  shows "decode_loop root bits acc = Some (Inr out) \<Longrightarrow> length out < length acc + length bits"
proof (induction bits arbitrary: acc rule: length_induct)
  case (1 bits)
  show ?case
  proof (cases bits)
    case Nil
    with "1.prems" show ?thesis by (simp add: decode_loop_nil)
  next
    case (Cons b bs)
    show ?thesis
    proof (cases "b = CHR 0x00")
      case True
      with "1.prems" show ?thesis by (simp add: Cons decode_loop_nul)
    next
      case False
      have eq: "decode_loop root bits acc =
          (case walk root bits of Inl e \<Rightarrow> Some (Inl e)
           | Inr (t, bits') \<Rightarrow> decode_loop root bits' (acc @ [c t]))"
        using False by (subst decode_loop.simps) (simp add: Cons)
      show ?thesis
      proof (cases "walk root bits")
        case (Inl e)
        with "1.prems" eq show ?thesis by simp
      next
        case (Inr x)
        obtain t bits' where x: "x = (t, bits')" by (cases x)
        have sh: "length bits' < length bits"
          using walk_shorter [OF _ assms] Inr x by simp
        have "decode_loop root bits' (acc @ [c t]) = Some (Inr out)"
          using "1.prems" eq Inr x by simp
        then have "length out < length (acc @ [c t]) + length bits'"
          using "1.IH" sh by blast
        then show ?thesis using sh by simp
      qed
    qed
  qed
qed

lemma walk_read_bit:
  "walk t (map read_bit bits) =
     (case walk t bits of Inl e \<Rightarrow> Inl e | Inr (t', r) \<Rightarrow> Inr (t', map read_bit r))"
proof (induction t bits rule: walk.induct)
  case (1 t bits)
  show ?case
  proof (cases "isleaf t")
    case True
    then show ?thesis by (simp add: walk_leaf)
  next
    case False
    show ?thesis
    proof (cases bits)
      case Nil
      then show ?thesis using False by (simp add: walk_end)
    next
      case (Cons b bs)
      have eq: "(CHR ''0'' = read_bit b) = (CHR ''0'' = b)"
        by (auto simp: read_bit_def)
      show ?thesis
      proof (cases "if CHR ''0'' = b then left t else right t")
        case None
        then show ?thesis using False by (simp add: Cons walk_inner eq)
      next
        case (Some u)
        then show ?thesis
          using False "1.IH" [OF False Cons Some] by (simp add: Cons walk_inner eq)
      qed
    qed
  qed
qed

lemma decode_loop_read_bit:
  "decode_loop root (map read_bit bits) out = decode_loop root bits out"
proof (cases "isleaf root")
  case True
  show ?thesis
  proof (cases bits)
    case Nil
    then show ?thesis by simp
  next
    case (Cons b bs)
    show ?thesis
    proof (cases "b = CHR 0x00")
      case z: True
      have "decode_loop root (CHR 0x00 # xs) out = Some (Inr out)" for xs
        by (subst decode_loop.simps) simp
      then show ?thesis by (simp add: Cons z read_bit_def)
    next
      case False
      then have "read_bit b \<noteq> CHR 0x00" by (simp add: read_bit_def)
      then show ?thesis using False True by (simp add: Cons decode_loop_leaf)
    qed
  qed
next
  case nl: False
  show ?thesis
  proof (induction bits arbitrary: out rule: length_induct)
    case (1 bits)
    show ?case
    proof (cases bits)
      case Nil
      then show ?thesis by simp
    next
      case (Cons b bs)
      show ?thesis
      proof (cases "b = CHR 0x00")
        case z: True
        have "decode_loop root (CHR 0x00 # xs) out = Some (Inr out)" for xs
          by (subst decode_loop.simps) simp
        then show ?thesis by (simp add: Cons z read_bit_def)
      next
        case False
        then have nz: "read_bit b \<noteq> CHR 0x00" by (simp add: read_bit_def)
        have l: "decode_loop root (map read_bit bits) out =
          (case walk root (map read_bit bits) of Inl e \<Rightarrow> Some (Inl e)
           | Inr (t, bits') \<Rightarrow> decode_loop root bits' (out @ [c t]))"
          using nz by (subst decode_loop.simps) (simp add: Cons)
        have r: "decode_loop root bits out =
          (case walk root bits of Inl e \<Rightarrow> Some (Inl e)
           | Inr (t, bits') \<Rightarrow> decode_loop root bits' (out @ [c t]))"
          using False by (subst decode_loop.simps) (simp add: Cons)
        show ?thesis
        proof (cases "walk root bits")
          case (Inl e)
          then show ?thesis by (simp add: l r walk_read_bit)
        next
          case (Inr x)
          obtain t bits' where x: "x = (t, bits')" by (cases x)
          have "length bits' < length bits"
            using walk_shorter [OF _ nl] Inr x by simp
          then have "decode_loop root (map read_bit bits') (out @ [c t]) =
             decode_loop root bits' (out @ [c t])"
            using 1 by blast
          then show ?thesis by (simp add: l r walk_read_bit Inr x)
        qed
      qed
    qed
  qed
qed

lemma walk_partial:
  "(ch, p @ q) \<in> set (codes_of t) \<Longrightarrow> q \<noteq> [] \<Longrightarrow>
   \<exists>t'. \<not> isleaf t' \<and> (full t \<longrightarrow> full t') \<and> (\<forall>xs. walk t (p @ xs) = walk t' xs)"
proof (induction t arbitrary: p rule: codes_of.induct)
  case (1 t)
  show ?case
  proof (cases p)
    case Nil
    have "\<not> isleaf t"
      using "1.prems" by (auto simp: Nil codes_of_leaf)
    then show ?thesis by (auto simp: Nil)
  next
    case (Cons b p')
    from "1.prems"(1) show ?thesis
    proof (cases rule: codes_of_cases)
      case Leaf
      then show ?thesis by (simp add: Cons)
    next
      case (Left l bs')
      then have "(ch, p' @ q) \<in> set (codes_of l)" by (simp add: Cons)
      from "1.IH"(1) [OF Left(1,2) this "1.prems"(2)]
      obtain t' where "\<not> isleaf t'" "full l \<longrightarrow> full t'" "\<forall>xs. walk l (p' @ xs) = walk t' xs"
        by blast
      moreover have "full t \<Longrightarrow> full l"
        using Left by (auto elim: full_cases)
      moreover have "b = CHR ''0''" using Left by (simp add: Cons)
      ultimately show ?thesis
        using Left by (auto simp: Cons walk_inner)
    next
      case (Right r bs')
      then have "(ch, p' @ q) \<in> set (codes_of r)" by (simp add: Cons)
      from "1.IH"(2) [OF Right(1,2) this "1.prems"(2)]
      obtain t' where "\<not> isleaf t'" "full r \<longrightarrow> full t'" "\<forall>xs. walk r (p' @ xs) = walk t' xs"
        by blast
      moreover have "full t \<Longrightarrow> full r"
        using Right by (auto elim: full_cases)
      moreover have "b = CHR ''1''" using Right by (simp add: Cons)
      ultimately show ?thesis
        using Right by (auto simp: Cons walk_inner)
    qed
  qed
qed

lemma decode_truncated:
  assumes kvs: "set kvs \<subseteq> set (codes_of root)"
    and pq: "(ch, p @ q) \<in> set (codes_of root)" "p \<noteq> []" "q \<noteq> []"
  shows "decode root (concat (map snd kvs) @ p @ CHR 0x00 # rest) =
         decode root (concat (map snd kvs) @ p @ CHR ''1'' # rest)"
    and "full root \<Longrightarrow> decode root (c_str (concat (map snd kvs) @ p)) = Some (Inl ReadPastEnd)"
proof -
  have nl: "\<not> isleaf root"
    using pq by (auto simp: codes_of_leaf)
  obtain t' where t': "\<not> isleaf t'" "full root \<longrightarrow> full t'" "\<And>xs. walk root (p @ xs) = walk t' xs"
    using walk_partial [OF pq(1) pq(3)] by blast
  obtain b p' where p: "p = b # p'" using pq(2) by (cases p) auto
  have "set (p @ q) \<subseteq> {CHR ''0'', CHR ''1''}"
    using codes_of_bits [OF pq(1)] .
  then have b: "b \<noteq> CHR 0x00" by (auto simp: p)
  have dl: "decode_loop root (p @ xs) out =
      (case walk t' xs of Inl e \<Rightarrow> Some (Inl e)
       | Inr (t, bits') \<Rightarrow> decode_loop root bits' (out @ [c t]))" for xs out
    using b t'(3) [of xs] by (subst decode_loop.simps) (simp add: p)
  have "walk t' (CHR 0x00 # rest) = walk t' (CHR ''1'' # rest)"
    using t'(1) by (simp add: walk_inner)
  then have "decode_loop root (p @ CHR 0x00 # rest) out = decode_loop root (p @ CHR ''1'' # rest) out" for out
    by (simp add: dl)
  then show "decode root (concat (map snd kvs) @ p @ CHR 0x00 # rest) =
         decode root (concat (map snd kvs) @ p @ CHR ''1'' # rest)"
    by (simp add: decode_def decode_loop_codes [OF nl kvs])
  show "decode root (c_str (concat (map snd kvs) @ p)) = Some (Inl ReadPastEnd)" if "full root"
  proof -
    from that t' have "full t'" by simp
    then obtain r where r: "right t' = Some r"
      using t'(1) by (auto elim: full_children)
    have e: "decode_loop root [] out = Some (Inl ReadPastEnd)" for out
      by (subst decode_loop.simps) simp
    have "walk t' [CHR 0x00] = walk r []"
      using t'(1) r by (simp add: walk_inner)
    also have "\<dots> = (if isleaf r then Inr (r, []) else Inl ReadPastEnd)"
      by (simp add: walk_leaf walk_end)
    finally have "decode_loop root (p @ [CHR 0x00]) out = Some (Inl ReadPastEnd)" for out
      by (simp add: dl e)
    then show ?thesis
      by (simp add: decode_def c_str_def decode_loop_codes [OF nl kvs])
  qed
qed

lemma codetable_full:
  assumes "full t"
  shows "\<exists>tab. codetable t = Inr tab \<and> set tab \<subseteq> set (codes_of t) \<and>
     (distinct (map fst (codes_of t)) \<longrightarrow> map_of tab = map_of (codes_of t))"
proof -
  let ?tab = "fold (\<lambda>(ch, bs). map_set ch ([] @ bs)) (codes_of t) []"
  have 1: "codetable t = Inr ?tab"
    unfolding codetable_def by (rule codetab_full [OF assms])
  have "set ?tab \<subseteq> set [] \<union> (\<lambda>(ch, bs). (ch, [] @ bs)) ` set (codes_of t)"
    by (rule set_fold_map_set)
  then have 2: "set ?tab \<subseteq> set (codes_of t)" by auto
  have 3: "map_of ?tab = map_of (codes_of t)" if d: "distinct (map fst (codes_of t))"
  proof (rule ext)
    fix k
    show "map_of ?tab k = map_of (codes_of t) k"
    proof (cases "map_of (codes_of t) k")
      case None
      then have "k \<notin> fst ` set (codes_of t)" by (simp add: map_of_eq_None_iff)
      then have "k \<notin> fst ` set ?tab" using 2 by auto
      then have "map_of ?tab k = None" by (metis map_of_eq_None_iff)
      then show ?thesis using None by simp
    next
      case (Some v)
      then have "(k, v) \<in> set (codes_of t)" by (rule map_of_SomeD)
      from map_of_fold_map_set [OF d this, of "\<lambda>bs. [] @ bs" "[]"] Some
      show ?thesis by simp
    qed
  qed
  show ?thesis using 1 2 3 by blast
qed

lemma codes_not_prefix:
  assumes "(x, cx) \<in> set (codes_of t)" "(y, cy) \<in> set (codes_of t)" "x \<noteq> y"
  shows "\<not> prefix cx cy"
proof
  assume "prefix cx cy"
  then obtain q where "cy = cx @ q" by (auto simp: prefix_def)
  with assms codes_of_prefix [of x cx t y q] show False by simp
qed

lemma forests_sum:
  "\<forall>f\<in>set (forests new k ts). sum_list (map w f) = sum_list (map w ts)"
proof (induction new k ts rule: forests.induct)
  case (1 new k ts)
  show ?case
  proof (cases "1 < length ts")
    case True
    then have "sum_list (map w (step (new k) ts)) = sum_list (map w ts)"
      by (intro step_weight) simp
    with True "1.IH" show ?thesis
      by (subst forests.simps) simp
  next
    case False
    then show ?thesis by (subst forests.simps) simp
  qed
qed

lemma forests_length: "length (forests new k ts) = max 1 (length ts)"
proof (induction new k ts rule: forests.induct)
  case (1 new k ts)
  show ?case
  proof (cases "1 < length ts")
    case True
    with "1.IH" show ?thesis
      by (subst forests.simps) (simp add: length_step)
  next
    case False
    then show ?thesis by (subst forests.simps) simp
  qed
qed

lemma forests_last:
  "ts \<noteq> [] \<Longrightarrow> huffman new k ts = Inr t \<Longrightarrow> last (forests new k ts) = [t]"
proof (induction new k ts rule: forests.induct)
  case (1 new k ts)
  show ?case
  proof (cases "1 < length ts")
    case True
    then have ne: "step (new k) ts \<noteq> []"
      using length_step [of "new k" ts] by (cases "step (new k) ts") auto
    moreover have "huffman new (Suc k) (step (new k) ts) = Inr t"
      using True "1.prems"(2) by (subst (asm) huffman.simps) simp
    ultimately have "last (forests new (Suc k) (step (new k) ts)) = [t]"
      using True "1.IH" by simp
    moreover have "forests new (Suc k) (step (new k) ts) \<noteq> []"
      by (subst forests.simps) simp
    ultimately show ?thesis using True
      by (subst forests.simps) simp
  next
    case False
    with "1.prems" show ?thesis
      by (subst forests.simps, subst (asm) huffman.simps) (auto split: list.splits)
  qed
qed

lemma step_three_by_address:
  assumes "addr a < addr x" "addr b < addr x"
  shows "step p [a, b, x] = [x, merge p a b]"
  using assms by (simp add: step_def swap_def min_ptr_def Let_def numeral_3_eq_3)

lemma roundtrip_two_or_more:
  assumes "CHR 0x00 \<notin> set S" "2 \<le> card (set S)"
  shows "test new (c_str S) = Some (Inr S)"
proof -
  obtain hist where hist: "freq (c_str S) = Inr hist" "keys_sorted hist" "fst ` set hist = set S"
    using freq_loop_cstr [OF assms(1), of "[]" "[]"]
    by (auto simp: freq_def c_str_def keys_sorted_def)
  have dh: "distinct (map fst hist)"
    using hist(2) by (rule keys_sorted_distinct)
  let ?ns = "nodes new 0 hist"
  have ns: "map c ?ns = map fst hist" "list_all isleaf ?ns" "length ?ns = length hist"
    using nodes_props [of new 0 hist] by simp_all
  have "card (set S) = length hist"
    using dh hist(3) distinct_card [of "map fst hist"] by simp
  then have len: "2 \<le> length ?ns" using assms(2) ns(3) by simp
  then have "?ns \<noteq> []" by auto
  from huffman_leaf_forest [OF this ns(2), of new "length hist"] len
  obtain tr where tr: "huffman new (length hist) ?ns = Inr tr" "full tr"
      "mset (leaves tr) = mset ?ns" "\<not> isleaf tr"
    by auto
  have "mset (map c (leaves tr)) = mset (map c ?ns)"
    using tr(3) by (metis mset_map)
  then have "mset (map fst (codes_of tr)) = mset (map c ?ns)"
    by (simp only: map_fst_codes_of [OF tr(2)])
  then have ms: "mset (map fst (codes_of tr)) = mset (map fst hist)"
    by (simp add: ns(1))
  have dc: "distinct (map fst (codes_of tr))"
    using dh mset_eq_imp_distinct_iff [OF ms] by simp
  have sc: "fst ` set (codes_of tr) = set S"
    using mset_eq_setD [OF ms] hist(3) by simp
  obtain codes where codes: "codetable tr = Inr codes" "map_of codes = map_of (codes_of tr)"
    using codetable_full [OF tr(2)] dc by blast
  have enc: "encode codes (c_str S) = Inr (concat (map (map_get [] codes) S))"
    using encode_loop_cstr [OF assms(1), of codes "[]" "[]"] by (simp add: encode_def c_str_def)
  let ?kvs = "map (\<lambda>ch. (ch, map_get [] codes ch)) S"
  have sub: "set ?kvs \<subseteq> set (codes_of tr)"
  proof
    fix kv assume "kv \<in> set ?kvs"
    then obtain ch where ch: "ch \<in> set S" "kv = (ch, map_get [] codes ch)" by auto
    then obtain bs where "(ch, bs) \<in> set (codes_of tr)" using sc by force
    then have "map_of (codes_of tr) ch = Some bs" using dc by simp
    then have "map_get [] codes ch = bs" by (simp add: map_get_def codes(2))
    with ch \<open>(ch, bs) \<in> set (codes_of tr)\<close> show "kv \<in> set (codes_of tr)" by simp
  qed
  have "decode tr (c_str (concat (map (map_get [] codes) S))) =
      decode_loop tr (concat (map snd ?kvs) @ [CHR 0x00]) []"
    by (simp add: decode_def c_str_def comp_def)
  also have "\<dots> = decode_loop tr [CHR 0x00] ([] @ map fst ?kvs)"
    by (rule decode_loop_codes [OF tr(4) sub])
  also have "\<dots> = Some (Inr S)"
    by (subst decode_loop.simps) (simp add: comp_def)
  finally show ?thesis
    by (simp add: test_def hist(1) tr(1) codes(1) enc)
qed

lemma roundtrip_one_symbol:
  assumes "CHR 0x00 \<notin> set S" "card (set S) = 1"
  shows "test new (c_str S) = Some (Inr [])"
proof -
  obtain a where a: "set S = {a}"
    using assms(2) by (auto simp: card_1_singleton_iff)
  obtain hist where hist: "freq (c_str S) = Inr hist" "keys_sorted hist" "fst ` set hist = set S"
    using freq_loop_cstr [OF assms(1), of "[]" "[]"]
    by (auto simp: freq_def c_str_def keys_sorted_def)
  have dh: "distinct (map fst hist)"
    using hist(2) by (rule keys_sorted_distinct)
  have "length hist = card (set (map fst hist))"
    using dh distinct_card [of "map fst hist"] by simp
  then have "length hist = 1" using hist(3) assms(2) by simp
  then obtain kv where "hist = [kv]"
    by (cases hist) auto
  then obtain n where h: "hist = [(a, n)]"
    using hist(3) a by (cases kv) auto
  have tr: "huffman new (length hist) (nodes new 0 hist) = Inr (leaf (new 0) a n)"
    by (simp add: h huffman.simps)
  have tab: "codetable (leaf (new 0) a n) = Inr [(a, [])]"
    by (simp add: codetable_def codetab.simps isleaf_def leaf_def)
  have "map (map_get [] [(a, [])]) S = map (\<lambda>_. []) S"
    using a by (intro map_cong) (auto simp: map_get_def)
  then have enc: "encode [(a, [])] (c_str S) = Inr []"
    using encode_loop_cstr [OF assms(1), of "[(a, [])]" "[]" "[]"]
    by (simp add: encode_def c_str_def)
  have dec: "decode (leaf (new 0) a n) (c_str []) = Some (Inr [])"
    by (simp add: decode_def c_str_def decode_loop_nul)
  show ?thesis
    by (simp add: test_def hist(1) tr tab enc dec)
qed

lemma encode_returns:
  assumes "CHR 0x00 \<in> set str"
  shows "\<exists>bs. encode codes str = Inr bs"
proof -
  obtain ys zs where "str = ys @ CHR 0x00 # zs" "CHR 0x00 \<notin> set ys"
    using split_list_first [OF assms] by blast
  then show ?thesis
    using encode_loop_cstr [of ys codes zs "[]"] by (simp add: encode_def)
qed

lemma decode_leaf_cases:
  assumes "isleaf root"
  shows "decode root bits =
     (case bits of [] \<Rightarrow> Some (Inl ReadPastEnd)
      | b # _ \<Rightarrow> if b = CHR 0x00 then Some (Inr []) else None)"
  using assms
  by (cases bits) (simp_all add: decode_def decode_loop_nil decode_loop_nul decode_loop_leaf)

lemma decode_inner_outcome:
  assumes "\<not> isleaf root"
  shows "(\<exists>out. decode root bits = Some (Inr out) \<and> length out < length bits) \<or>
         (\<exists>e. decode root bits = Some (Inl e))"
proof -
  obtain r where r: "decode_loop root bits [] = Some r"
    using decode_loop_returns [OF assms] by blast
  show ?thesis
  proof (cases r)
    case (Inl e)
    with r show ?thesis by (simp add: decode_def)
  next
    case (Inr out)
    with r decode_loop_rounds [OF assms, of bits "[]" out] show ?thesis
      by (simp add: decode_def)
  qed
qed

lemma decode_codes:
  assumes "\<not> isleaf root" "set kvs \<subseteq> set (codes_of root)"
  shows "decode root (c_str (concat (map snd kvs))) = Some (Inr (map fst kvs))"
  using decode_loop_codes [OF assms, of "[CHR 0x00]" "[]"]
  by (simp add: decode_def c_str_def decode_loop_nul)

section \<open>Properties\<close>

text \<open>
  C1: for every forest of \<open>N \<ge> 1\<close> leaves, \<open>huffman\<close> is to select, in each round,
  the two trees of smallest weight, and to replace them by a node with the sum of their
  weights and the two as children, until one tree is left, whose leaves are the original
  trees.

  The source does not select by weight: the comparisons in \<^verbatim>\<open>huffman\<close> and
  \<^verbatim>\<open>swap\<close> are between elements of the vector, which are pointers, and the scan
  compares with \<^verbatim>\<open>min(ts[n-1], ts[n-1])\<close>. For the text \<open>aaaaabbbbbbbbbc\<close> the
  histogram is \<open>a:5, b:9, c:1\<close>; with the three leaves at increasing addresses the
  first round merges the leaves of weight 5 and 9 and keeps the leaf of weight 1. By
  \<open>step_three_by_address\<close> this is so whatever the weights are, when the last of three
  leaves has the highest address. That the leaves of the result are the trees of the
  forest is \<open>huffman_leaf_forest\<close>.
\<close>

theorem huffman_merges_by_address:
  "freq (c_str ''aaaaabbbbbbbbbc'') = Inr [(CHR ''a'', 5), (CHR ''b'', 9), (CHR ''c'', 1)] \<and>
   step (bump 3) (nodes bump 0 [(CHR ''a'', 5), (CHR ''b'', 9), (CHR ''c'', 1)]) =
     [leaf (bump 2) (CHR ''c'') 1,
      merge (bump 3) (leaf (bump 0) (CHR ''a'') 5) (leaf (bump 1) (CHR ''b'') 9)] \<and>
   huffman bump 3 (nodes bump 0 [(CHR ''a'', 5), (CHR ''b'', 9), (CHR ''c'', 1)]) =
     Inr (merge (bump 4)
           (merge (bump 3) (leaf (bump 0) (CHR ''a'') 5) (leaf (bump 1) (CHR ''b'') 9))
           (leaf (bump 2) (CHR ''c'') 1))"
  by code_simp

text \<open>
  C2: building the tree from the histogram of a text, encoding the text with the code
  table of the tree, and decoding the result with the tree gives the text again, for every
  text with at least two distinct symbols (and without the NUL character, which ends a
  \<^verbatim>\<open>const char*\<close> string). For a text with one distinct symbol the tree is a leaf,
  its code is empty, and decoding the empty bit-string gives the empty text.
\<close>

theorem round_trip:
  assumes "CHR 0x00 \<notin> set S"
  shows "(2 \<le> card (set S) \<longrightarrow> test new (c_str S) = Some (Inr S)) \<and>
         (card (set S) = 1 \<longrightarrow> test new (c_str S) = Some (Inr []))"
  using roundtrip_two_or_more [OF assms] roundtrip_one_symbol [OF assms] by blast

theorem round_trip_witness:
  "CHR 0x00 \<notin> set ''abca'' \<and> 2 \<le> card (set ''abca'') \<and>
   test bump (c_str ''abca'') = Some (Inr ''abca'') \<and>
   CHR 0x00 \<notin> set ''aaa'' \<and> card (set ''aaa'') = 1 \<and>
   test bump (c_str ''aaa'') = Some (Inr [])"
proof -
  have 1: "CHR 0x00 \<notin> set ''abca''" by simp
  have 2: "2 \<le> card (set ''abca'')" by (simp add: card_insert_if)
  have 3: "CHR 0x00 \<notin> set ''aaa''" by simp
  have 4: "card (set ''aaa'') = 1" by simp
  show ?thesis
    using 1 2 3 4 round_trip [OF 1, of bump] round_trip [OF 3, of bump] by blast
qed

theorem test_single_symbol: "test bump (c_str ''a'') = Some (Inr [])"
  by code_simp

text \<open>
  C3: \<open>encode\<close> reports no unknown symbol. On every terminated string it returns a
  bit-string, the concatenation of the codes of the symbols in the order of the input, in
  which a symbol that has no entry in the code table contributes the empty string (the
  subscript of the table inserts an empty string for it).
\<close>

theorem encode_never_fails:
  assumes "CHR 0x00 \<notin> set S"
  shows "encode codes (c_str S) =
     Inr (concat (map (\<lambda>ch. case map_of codes ch of None \<Rightarrow> [] | Some bs \<Rightarrow> bs) S))"
  using encode_loop_cstr [OF assms, of codes "[]" "[]"]
  by (simp add: encode_def c_str_def map_get_def [abs_def])

theorem encode_never_fails_witness:
  "CHR 0x00 \<notin> set ''axb'' \<and>
   encode [(CHR ''a'', ''0''), (CHR ''b'', ''1'')] (c_str ''axb'') = Inr ''01''"
proof -
  have 1: "CHR 0x00 \<notin> set ''axb''" by simp
  show ?thesis
    using 1 encode_never_fails [OF 1, of "[(CHR ''a'', ''0''), (CHR ''b'', ''1'')]"] by simp
qed

theorem encode_unknown_symbol:
  "encode [(CHR ''a'', ''0''), (CHR ''b'', ''1'')] (c_str ''axb'') = Inr ''01''"
  by code_simp

text \<open>
  C4: \<open>decode\<close> reports no truncated input. When the bit-string is a sequence of codes
  followed by a non-empty proper prefix of a code, the inner loop reads the terminator as
  a bit other than \<open>0\<close>, descends to the right child and goes on reading behind the
  terminator: the result is that of the buffer with \<open>1\<close> in the place of the
  terminator. On a buffer that ends with the terminator, and a tree in which every node
  has no child or two, this is a read behind the end of the buffer. On another buffer
  it can return a symbol sequence: for the tree \<open>((a b) c)\<close> and the buffer that holds
  \<open>0\<close> and two NUL characters, it returns \<open>b\<close>.
\<close>

theorem decode_reads_terminator_as_bit:
  assumes "set kvs \<subseteq> set (codes_of root)"
    and "(ch, p @ q) \<in> set (codes_of root)" and "p \<noteq> []" and "q \<noteq> []"
  shows "decode root (concat (map snd kvs) @ p @ CHR 0x00 # rest) =
           decode root (concat (map snd kvs) @ p @ CHR ''1'' # rest) \<and>
         (full root \<longrightarrow>
            decode root (c_str (concat (map snd kvs) @ p)) = Some (Inl ReadPastEnd))"
  using decode_truncated [OF assms] by blast

theorem decode_reads_terminator_as_bit_witness:
  "set [(CHR ''a'', ''00'')] \<subseteq>
     set (codes_of (merge 4240 (merge 4192 (leaf 4096 (CHR ''a'') 1) (leaf 4144 (CHR ''b'') 1))
                               (leaf 4288 (CHR ''c'') 1))) \<and>
   (CHR ''b'', ''0'' @ ''1'') \<in>
     set (codes_of (merge 4240 (merge 4192 (leaf 4096 (CHR ''a'') 1) (leaf 4144 (CHR ''b'') 1))
                               (leaf 4288 (CHR ''c'') 1))) \<and>
   ''0'' \<noteq> [] \<and> ''1'' \<noteq> [] \<and>
   full (merge 4240 (merge 4192 (leaf 4096 (CHR ''a'') 1) (leaf 4144 (CHR ''b'') 1))
                    (leaf 4288 (CHR ''c'') 1)) \<and>
   decode (merge 4240 (merge 4192 (leaf 4096 (CHR ''a'') 1) (leaf 4144 (CHR ''b'') 1))
                      (leaf 4288 (CHR ''c'') 1))
     (concat (map snd [(CHR ''a'', ''00'')]) @ ''0'' @ CHR 0x00 # [CHR 0x00]) =
   decode (merge 4240 (merge 4192 (leaf 4096 (CHR ''a'') 1) (leaf 4144 (CHR ''b'') 1))
                      (leaf 4288 (CHR ''c'') 1))
     (concat (map snd [(CHR ''a'', ''00'')]) @ ''0'' @ CHR ''1'' # [CHR 0x00]) \<and>
   decode (merge 4240 (merge 4192 (leaf 4096 (CHR ''a'') 1) (leaf 4144 (CHR ''b'') 1))
                      (leaf 4288 (CHR ''c'') 1))
     (c_str (concat (map snd [(CHR ''a'', ''00'')]) @ ''0'')) = Some (Inl ReadPastEnd)"
proof -
  let ?t = "merge 4240 (merge 4192 (leaf 4096 (CHR ''a'') 1) (leaf 4144 (CHR ''b'') 1))
                       (leaf 4288 (CHR ''c'') 1)"
  have 1: "set [(CHR ''a'', ''00'')] \<subseteq> set (codes_of ?t)" by code_simp
  have 2: "(CHR ''b'', ''0'' @ ''1'') \<in> set (codes_of ?t)" by code_simp
  have 3: "''0'' \<noteq> []" by simp
  have 4: "''1'' \<noteq> []" by simp
  have 5: "full ?t" by code_simp
  show ?thesis
    using 1 2 3 4 5 decode_reads_terminator_as_bit [OF 1 2 3 4, of "[CHR 0x00]"] by blast
qed

theorem decode_zero_filled:
  "decode (merge 4240 (merge 4192 (leaf 4096 (CHR ''a'') 1) (leaf 4144 (CHR ''b'') 1))
                      (leaf 4288 (CHR ''c'') 1))
     (''0'' @ [CHR 0x00, CHR 0x00]) = Some (Inr ''b'')"
  by code_simp

text \<open>
  C5: \<open>decode\<close> reports no malformed input. It compares each character it consumes
  with \<open>0\<close> only, so a character other than \<open>0\<close> and \<open>1\<close> is read as \<open>1\<close>:
  replacing every such character of the buffer (NUL apart) by \<open>1\<close> does not change
  the result.
\<close>

theorem decode_non_binary: "decode root (map read_bit bits) = decode root bits"
  by (simp add: decode_def decode_loop_read_bit)

theorem decode_non_binary_witness:
  "decode (merge 4192 (leaf 4096 (CHR ''a'') 1) (leaf 4144 (CHR ''b'') 1))
     (map read_bit (c_str ''0x1'')) =
   decode (merge 4192 (leaf 4096 (CHR ''a'') 1) (leaf 4144 (CHR ''b'') 1)) (c_str ''0x1'') \<and>
   map read_bit (c_str ''0x1'') = c_str ''011''"
proof -
  have "map read_bit (c_str ''0x1'') = c_str ''011''" by code_simp
  then show ?thesis
    using decode_non_binary [of "merge 4192 (leaf 4096 (CHR ''a'') 1) (leaf 4144 (CHR ''b'') 1)"
      "c_str ''0x1''"] by blast
qed

theorem decode_other_character:
  "decode (merge 4192 (leaf 4096 (CHR ''a'') 1) (leaf 4144 (CHR ''b'') 1)) (c_str ''0x1'')
     = Some (Inr ''abb'')"
  by code_simp

text \<open>
  C6: on the empty forest \<open>huffman\<close> reports no error of its own: it evaluates
  \<^verbatim>\<open>front()\<close> of an empty vector, which is undefined. For every non-empty forest
  it returns a tree.
\<close>

theorem huffman_failure:
  "huffman new k [] = Inl FrontOfEmptyVector \<and>
   (ts \<noteq> [] \<longrightarrow> (\<exists>t. huffman new k ts = Inr t))"
proof
  show "huffman new k [] = Inl FrontOfEmptyVector"
    by (simp add: huffman.simps)
  show "ts \<noteq> [] \<longrightarrow> (\<exists>t. huffman new k ts = Inr t)"
  proof
    assume "ts \<noteq> []"
    then have "\<exists>t. huffman new k ts = Inr t \<and> True"
      by (intro huffman_rule) simp_all
    then show "\<exists>t. huffman new k ts = Inr t" by simp
  qed
qed

theorem huffman_failure_witness:
  "huffman bump 0 [] = Inl FrontOfEmptyVector \<and>
   nodes bump 0 [(CHR ''a'', 5), (CHR ''b'', 9), (CHR ''c'', 1)] \<noteq> [] \<and>
   length (nodes bump 0 [(CHR ''a'', 5), (CHR ''b'', 9), (CHR ''c'', 1)]) = 3 \<and>
   (\<exists>t. huffman bump 3 (nodes bump 0 [(CHR ''a'', 5), (CHR ''b'', 9), (CHR ''c'', 1)]) = Inr t) \<and>
   huffman bump 3 (nodes bump 0 [(CHR ''a'', 5), (CHR ''b'', 9), (CHR ''c'', 1)]) =
     Inr (merge (bump 4)
           (merge (bump 3) (leaf (bump 0) (CHR ''a'') 5) (leaf (bump 1) (CHR ''b'') 9))
           (leaf (bump 2) (CHR ''c'') 1))"
proof -
  let ?ts = "nodes bump 0 [(CHR ''a'', 5), (CHR ''b'', 9), (CHR ''c'', 1)]"
  have 1: "?ts \<noteq> []" by simp
  have 2: "length ?ts = 3" by simp
  have 3: "huffman bump 3 ?ts =
     Inr (merge (bump 4)
           (merge (bump 3) (leaf (bump 0) (CHR ''a'') 5) (leaf (bump 1) (CHR ''b'') 9))
           (leaf (bump 2) (CHR ''c'') 1))"
    by code_simp
  show ?thesis
    using 1 2 3 huffman_failure [of bump 0 ?ts] huffman_failure [of bump 3 ?ts] by blast
qed

theorem huffman_empty_forest: "huffman bump 0 [] = Inl FrontOfEmptyVector"
  by code_simp

text \<open>
  C7: in the code table of a tree that \<open>huffman\<close> builds from a non-empty forest of
  leaves, the codes of two distinct symbols are such that neither is a prefix of the
  other.
\<close>

theorem prefix_free:
  assumes "ts \<noteq> []" "list_all isleaf ts"
  shows "\<exists>t tab. huffman new k ts = Inr t \<and> codetable t = Inr tab \<and>
     (\<forall>(x, cx)\<in>set tab. \<forall>(y, cy)\<in>set tab. x \<noteq> y \<longrightarrow> \<not> prefix cx cy \<and> \<not> prefix cy cx)"
proof -
  obtain t where t: "huffman new k ts = Inr t" "full t"
    using huffman_leaf_forest [OF assms] by blast
  obtain tab where tab: "codetable t = Inr tab" "set tab \<subseteq> set (codes_of t)"
    using codetable_full [OF t(2)] by blast
  have "\<not> prefix cx cy \<and> \<not> prefix cy cx"
    if "(x, cx) \<in> set tab" "(y, cy) \<in> set tab" "x \<noteq> y" for x cx y cy
    using that tab(2) codes_not_prefix [of x cx t y cy] codes_not_prefix [of y cy t x cx]
    by auto
  with t(1) tab(1) show ?thesis by blast
qed

theorem prefix_free_witness:
  "nodes bump 0 [(CHR ''a'', 5), (CHR ''b'', 9), (CHR ''c'', 1)] \<noteq> [] \<and>
   list_all isleaf (nodes bump 0 [(CHR ''a'', 5), (CHR ''b'', 9), (CHR ''c'', 1)]) \<and>
   (\<exists>t tab. huffman bump 3 (nodes bump 0 [(CHR ''a'', 5), (CHR ''b'', 9), (CHR ''c'', 1)]) = Inr t \<and>
      codetable t = Inr tab \<and>
      (\<forall>(x, cx)\<in>set tab. \<forall>(y, cy)\<in>set tab.
          x \<noteq> y \<longrightarrow> \<not> prefix cx cy \<and> \<not> prefix cy cx))"
proof -
  let ?ts = "nodes bump 0 [(CHR ''a'', 5), (CHR ''b'', 9), (CHR ''c'', 1)]"
  have 1: "?ts \<noteq> []" by simp
  have 2: "list_all isleaf ?ts" by code_simp
  show ?thesis using 1 2 prefix_free [OF 1 2, of bump 3] by blast
qed

text \<open>
  C8: in every forest that the loop of \<open>huffman\<close> goes through, the sum of the weights
  of the trees is the sum of the weights of the trees of the original forest, and this sum
  is the weight of the tree returned. Sums are those of the 32-bit \<^verbatim>\<open>int\<close>.
\<close>

theorem weight_conserved:
  "(\<forall>f\<in>set (forests new k ts). sum_list (map w f) = sum_list (map w ts)) \<and>
   (ts \<noteq> [] \<longrightarrow>
      (\<exists>t. huffman new k ts = Inr t \<and> last (forests new k ts) = [t] \<and>
           w t = sum_list (map w ts)))"
proof (intro conjI impI)
  show "\<forall>f\<in>set (forests new k ts). sum_list (map w f) = sum_list (map w ts)"
    by (rule forests_sum)
next
  assume ne: "ts \<noteq> []"
  have "\<exists>t. huffman new k ts = Inr t \<and> sum_list (map w [t]) = sum_list (map w ts)"
    using ne by (intro huffman_rule) (simp_all add: step_weight)
  then obtain t where t: "huffman new k ts = Inr t" "w t = sum_list (map w ts)"
    by auto
  with forests_last [OF ne t(1)]
  show "\<exists>t. huffman new k ts = Inr t \<and> last (forests new k ts) = [t] \<and>
           w t = sum_list (map w ts)"
    by simp
qed

theorem weight_conserved_witness:
  "[leaf (bump 2) (CHR ''c'') 1,
    merge (bump 3) (leaf (bump 0) (CHR ''a'') 5) (leaf (bump 1) (CHR ''b'') 9)]
     \<in> set (forests bump 3 (nodes bump 0 [(CHR ''a'', 5), (CHR ''b'', 9), (CHR ''c'', 1)])) \<and>
   sum_list (map w [leaf (bump 2) (CHR ''c'') 1,
    merge (bump 3) (leaf (bump 0) (CHR ''a'') 5) (leaf (bump 1) (CHR ''b'') 9)]) =
   sum_list (map w (nodes bump 0 [(CHR ''a'', 5), (CHR ''b'', 9), (CHR ''c'', 1)])) \<and>
   nodes bump 0 [(CHR ''a'', 5), (CHR ''b'', 9), (CHR ''c'', 1)] \<noteq> [] \<and>
   (\<exists>t. huffman bump 3 (nodes bump 0 [(CHR ''a'', 5), (CHR ''b'', 9), (CHR ''c'', 1)]) = Inr t \<and>
        last (forests bump 3 (nodes bump 0 [(CHR ''a'', 5), (CHR ''b'', 9), (CHR ''c'', 1)])) = [t] \<and>
        w t = sum_list (map w (nodes bump 0 [(CHR ''a'', 5), (CHR ''b'', 9), (CHR ''c'', 1)])))"
proof -
  let ?ts = "nodes bump 0 [(CHR ''a'', 5), (CHR ''b'', 9), (CHR ''c'', 1)]"
  have 1: "[leaf (bump 2) (CHR ''c'') 1,
    merge (bump 3) (leaf (bump 0) (CHR ''a'') 5) (leaf (bump 1) (CHR ''b'') 9)]
     \<in> set (forests bump 3 ?ts)" by code_simp
  have 2: "?ts \<noteq> []" by simp
  show ?thesis using 1 2 weight_conserved [of bump 3 ?ts] by blast
qed

text \<open>
  C9: for every non-empty forest of \<open>N\<close> trees \<open>huffman\<close> returns a tree, and its
  loop goes through \<open>N\<close> forests, the last of which holds that tree. \<open>codetable\<close>
  returns a table for every tree in which each node has no child or two. \<open>encode\<close>
  returns a bit-string for every buffer that holds a NUL. With a root that is not a leaf,
  \<open>decode\<close> either returns a symbol sequence, with fewer symbols than the buffer has
  characters, or stops at a read behind the buffer or through a null pointer, where the
  behaviour of the source is undefined; on a sequence of codes followed by the terminator
  it returns their symbols. With a root that is a leaf, \<open>decode\<close> returns the empty
  sequence when the buffer begins with NUL and reads behind the buffer when the buffer is
  empty; when the buffer begins with another character a round of its loop appends a
  symbol and consumes no character, so the loop has no exit and the function does not
  return.
\<close>

theorem operations_terminate:
  "(ts \<noteq> [] \<longrightarrow>
      (\<exists>t. huffman new k ts = Inr t \<and> last (forests new k ts) = [t] \<and>
           length (forests new k ts) = length ts)) \<and>
   (full tr \<longrightarrow> (\<exists>tab. codetable tr = Inr tab)) \<and>
   (CHR 0x00 \<in> set str \<longrightarrow> (\<exists>bs. encode codes str = Inr bs)) \<and>
   (\<not> isleaf root \<longrightarrow>
      (\<exists>out. decode root bits = Some (Inr out) \<and> length out < length bits) \<or>
      (\<exists>e. decode root bits = Some (Inl e))) \<and>
   (\<not> isleaf root \<and> set kvs \<subseteq> set (codes_of root) \<longrightarrow>
      decode root (c_str (concat (map snd kvs))) = Some (Inr (map fst kvs))) \<and>
   (isleaf root \<longrightarrow>
      decode root bits =
        (case bits of [] \<Rightarrow> Some (Inl ReadPastEnd)
         | b # _ \<Rightarrow> if b = CHR 0x00 then Some (Inr []) else None))"
proof (intro conjI impI)
  assume ne: "ts \<noteq> []"
  have "\<exists>t. huffman new k ts = Inr t \<and> True"
    using ne by (intro huffman_rule) simp_all
  then obtain t where t: "huffman new k ts = Inr t" by blast
  have "length (forests new k ts) = length ts"
    using ne by (cases ts) (simp_all add: forests_length)
  with t forests_last [OF ne t]
  show "\<exists>t. huffman new k ts = Inr t \<and> last (forests new k ts) = [t] \<and>
           length (forests new k ts) = length ts"
    by simp
next
  assume "full tr"
  then show "\<exists>tab. codetable tr = Inr tab"
    using codetable_full [of tr] by blast
next
  assume "CHR 0x00 \<in> set str"
  then show "\<exists>bs. encode codes str = Inr bs" by (rule encode_returns)
next
  assume "\<not> isleaf root"
  then show "(\<exists>out. decode root bits = Some (Inr out) \<and> length out < length bits) \<or>
      (\<exists>e. decode root bits = Some (Inl e))"
    by (rule decode_inner_outcome)
next
  assume "\<not> isleaf root \<and> set kvs \<subseteq> set (codes_of root)"
  then show "decode root (c_str (concat (map snd kvs))) = Some (Inr (map fst kvs))"
    using decode_codes by blast
next
  assume "isleaf root"
  then show "decode root bits =
        (case bits of [] \<Rightarrow> Some (Inl ReadPastEnd)
         | b # _ \<Rightarrow> if b = CHR 0x00 then Some (Inr []) else None)"
    by (rule decode_leaf_cases)
qed

theorem operations_terminate_witness:
  "nodes bump 0 [(CHR ''a'', 5), (CHR ''b'', 9), (CHR ''c'', 1)] \<noteq> [] \<and>
   (\<exists>t. huffman bump 3 (nodes bump 0 [(CHR ''a'', 5), (CHR ''b'', 9), (CHR ''c'', 1)]) = Inr t \<and>
        last (forests bump 3 (nodes bump 0 [(CHR ''a'', 5), (CHR ''b'', 9), (CHR ''c'', 1)])) = [t] \<and>
        length (forests bump 3 (nodes bump 0 [(CHR ''a'', 5), (CHR ''b'', 9), (CHR ''c'', 1)])) =
          length (nodes bump 0 [(CHR ''a'', 5), (CHR ''b'', 9), (CHR ''c'', 1)])) \<and>
   full (merge 4240 (merge 4192 (leaf 4096 (CHR ''a'') 1) (leaf 4144 (CHR ''b'') 1))
                    (leaf 4288 (CHR ''c'') 1)) \<and>
   (\<exists>tab. codetable (merge 4240 (merge 4192 (leaf 4096 (CHR ''a'') 1) (leaf 4144 (CHR ''b'') 1))
                                (leaf 4288 (CHR ''c'') 1)) = Inr tab) \<and>
   CHR 0x00 \<in> set (c_str ''axb'') \<and>
   (\<exists>bs. encode [(CHR ''a'', ''0''), (CHR ''b'', ''1'')] (c_str ''axb'') = Inr bs) \<and>
   \<not> isleaf (merge 4192 (leaf 4096 (CHR ''a'') 1) (leaf 4144 (CHR ''b'') 1)) \<and>
   decode (merge 4192 (leaf 4096 (CHR ''a'') 1) (leaf 4144 (CHR ''b'') 1)) (c_str ''0x1'')
     = Some (Inr ''abb'') \<and>
   length ''abb'' < length (c_str ''0x1'') \<and>
   set [(CHR ''b'', ''1''), (CHR ''a'', ''0'')] \<subseteq>
     set (codes_of (merge 4192 (leaf 4096 (CHR ''a'') 1) (leaf 4144 (CHR ''b'') 1))) \<and>
   decode (merge 4192 (leaf 4096 (CHR ''a'') 1) (leaf 4144 (CHR ''b'') 1))
     (c_str (concat (map snd [(CHR ''b'', ''1''), (CHR ''a'', ''0'')])))
     = Some (Inr (map fst [(CHR ''b'', ''1''), (CHR ''a'', ''0'')])) \<and>
   isleaf (leaf 4096 (CHR ''x'') 7) \<and>
   decode (leaf 4096 (CHR ''x'') 7) (CHR ''0'' # [CHR 0x00]) = None \<and>
   decode (leaf 4096 (CHR ''x'') 7) (CHR 0x00 # []) = Some (Inr [])"
proof -
  let ?ts = "nodes bump 0 [(CHR ''a'', 5), (CHR ''b'', 9), (CHR ''c'', 1)]"
  let ?abc = "merge 4240 (merge 4192 (leaf 4096 (CHR ''a'') 1) (leaf 4144 (CHR ''b'') 1))
                    (leaf 4288 (CHR ''c'') 1)"
  let ?ab = "merge 4192 (leaf 4096 (CHR ''a'') 1) (leaf 4144 (CHR ''b'') 1)"
  let ?x = "leaf 4096 (CHR ''x'') 7"
  let ?kvs = "[(CHR ''b'', ''1''), (CHR ''a'', ''0'')]"
  let ?tab = "[(CHR ''a'', ''0''), (CHR ''b'', ''1'')]"
  have 1: "?ts \<noteq> []" by simp
  have 2: "full ?abc" by code_simp
  have 3: "CHR 0x00 \<in> set (c_str ''axb'')" by (simp add: c_str_def)
  have 4: "\<not> isleaf ?ab" by (rule isleaf_merge)
  have 5: "decode ?ab (c_str ''0x1'') = Some (Inr ''abb'')" by code_simp
  have 6: "set ?kvs \<subseteq> set (codes_of ?ab)" by code_simp
  have 7: "isleaf ?x" by (simp add: isleaf_def leaf_def)
  have 8: "length ''abb'' < length (c_str ''0x1'')" by (simp add: c_str_def)
  note a = operations_terminate [of ?ts bump 3 ?abc "c_str ''axb''" ?tab ?ab "c_str ''0x1''" ?kvs]
  note b = operations_terminate [of ?ts bump 3 ?abc "c_str ''axb''" ?tab ?x "CHR ''0'' # [CHR 0x00]" ?kvs]
  note c' = operations_terminate [of ?ts bump 3 ?abc "c_str ''axb''" ?tab ?x "CHR 0x00 # []" ?kvs]
  have 9: "decode ?x (CHR ''0'' # [CHR 0x00]) = None"
    using b 7 by simp
  have 10: "decode ?x (CHR 0x00 # []) = Some (Inr [])"
    using c' 7 by simp
  show ?thesis
    using 1 2 3 4 5 6 7 8 9 10 a by blast
qed

theorem decode_leaf_root: "decode (leaf 4096 (CHR ''x'') 7) (c_str ''0'') = None"
  by (simp add: decode_def c_str_def decode_loop_leaf isleaf_def leaf_def)

text \<open>
  C10: for a forest that consists of a single leaf, \<open>huffman\<close> returns that leaf
  unchanged and does not fail, and \<open>codetable\<close> of it maps the symbol of the leaf to the
  empty bit-string (the table has this one entry).
\<close>

theorem single_leaf:
  "huffman new k [leaf p ch n] = Inr (leaf p ch n) \<and>
   codetable (leaf p ch n) = Inr [(ch, [])]"
  by (simp add: huffman.simps codetable_def codetab.simps isleaf_def leaf_def)

end
